theory Spec2Isabelle
  imports Main "HOL-Library.AList"
begin

section \<open>Events and their source\<close>

text \<open>
  The interface EventSource, lines 13-20. Its optional field \<^verbatim>\<open>socketPath\<close> is named
  \<open>sourceSocketPath\<close> here, apart from the publisher's private field of that name.
\<close>

record EventSource =
  script :: string
  sessionId :: "string option"
  sessionName :: "string option"
  sourceSocketPath :: "string option"
  pid :: int
  hostname :: string


text \<open>
  An event is an object: its own properties in insertion order, each name once. The
  value of a property is opaque, but for a source record stored by the listener.
\<close>

datatype 'v field = Source EventSource | Other 'v

type_synonym 'v event = "(string \<times> 'v field) list"



section \<open>The publisher object (class ZmqEventPublisher)\<close>

text \<open>
  The four private fields of the class, lines 23-26 of \<^verbatim>\<open>src/core/zmq-publisher.ts\<close>.
  A socket created by \<^verbatim>\<open>new Publisher()\<close> is identified by a number; \<^verbatim>\<open>null\<close> is
  \<open>None\<close>. The type of events is a parameter: the class never looks inside one.
\<close>

record 'e ZmqEventPublisher =
  publisher :: "nat option"
  isConnected :: bool
  eventQueue :: "'e list"
  socketPath :: string

text \<open>
  The methods are \<^verbatim>\<open>async\<close>: a call runs up to its first \<^verbatim>\<open>await\<close> and is suspended
  there; when the awaited operation settles, the rest runs up to the next \<^verbatim>\<open>await\<close>.
  JavaScript runs one such piece at a time, so each piece is one atomic step of the
  model, and the calls of other pieces may come between two steps.

  A suspended call is a task, named after the \<^verbatim>\<open>await\<close> it stands at. A connect
  remembers who called it: \<open>Background\<close> is the fire-and-forget call of line 64, whose
  rejection the \<^verbatim>\<open>.catch\<close> handler of line 65 logs and swallows.
\<close>

datatype origin = Explicit | Background

datatype 'e task =
    ConnectDir origin               \<comment> \<open>line 38: await ensureZmqSocketDirectory()\<close>
  | ConnectSock origin              \<comment> \<open>line 42: await this.publisher.connect(this.socketPath)\<close>
  | ConnectSettle origin            \<comment> \<open>line 44: the 100 ms timer\<close>
  | ConnectDrain origin "'e option" \<comment> \<open>line 51: await this.publishEvent(event); \<open>Some e\<close> while
                                        that call awaits its send of \<open>e\<close> (line 73), \<open>None\<close> once it
                                        has returned\<close>
  | PublishSend 'e                  \<comment> \<open>line 73, in a call of publishEvent from outside\<close>
  | DisconnectClose                 \<comment> \<open>line 83: await this.publisher.close()\<close>
  | Fulfilled                       \<comment> \<open>the call has returned\<close>
  | Rejected                        \<comment> \<open>the call has thrown to its caller\<close>

text \<open>
  The object together with what surrounds it: the calls in flight (a call's identity is
  its position in \<open>tasks\<close>, which never changes), the number of sockets constructed so
  far, the messages handed to \<^verbatim>\<open>publisher.send\<close> in call order, the messages whose send
  was fulfilled in that order, and the lines written by \<^verbatim>\<open>console.error\<close>.
  A message is the event itself: \<^verbatim>\<open>JSON.stringify\<close> is taken to succeed on every event.
\<close>

record 'e proc = "'e ZmqEventPublisher" +
  tasks :: "'e task list"
  sockets :: nat
  sends :: "'e list"
  delivered :: "'e list"
  console :: "string list"

text \<open>The constructor, lines 28-30, with the field initialisers of lines 23-25.\<close>

definition new_publisher :: "string \<Rightarrow> 'e proc" where
  "new_publisher path =
     \<lparr>publisher = None, isConnected = False, eventQueue = [], socketPath = path,
      tasks = [], sockets = 0, sends = [], delivered = [], console = []\<rparr>"

text \<open>What the caller of an async method holds when the call has run its first piece.\<close>

datatype outcome = Returned | Pending nat

definition suspend :: "'e task \<Rightarrow> 'e proc \<Rightarrow> outcome \<times> 'e proc" where
  "suspend t s = (Pending (length (tasks s)), s\<lparr>tasks := tasks s @ [t]\<rparr>)"

text \<open>connect(), lines 32-38: the early return, or the first await.\<close>

definition connect_call :: "origin \<Rightarrow> 'e proc \<Rightarrow> outcome \<times> 'e proc" where
  "connect_call who s = (if isConnected s then (Returned, s) else suspend (ConnectDir who) s)"

text \<open>
  publishEvent(event), lines 61-73, up to the await of the send. The result is \<open>True\<close>
  when the call now awaits \<^verbatim>\<open>publisher.send\<close>, \<open>False\<close> when it has returned at line 68.
\<close>

definition publishEvent_body :: "'e \<Rightarrow> 'e proc \<Rightarrow> bool \<times> 'e proc" where
  "publishEvent_body e s =
     (if \<not> isConnected s \<or> publisher s = None
      then (let s1 = s\<lparr>eventQueue := eventQueue s @ [e]\<rparr>
            in (False, if \<not> isConnected s1 then snd (connect_call Background s1) else s1))
      else (True, s\<lparr>sends := sends s @ [e]\<rparr>))"

text \<open>publishEvent(event), lines 73-77: the send has settled.\<close>

definition publishEvent_settled :: "'e \<Rightarrow> bool \<Rightarrow> 'e proc \<Rightarrow> 'e proc" where
  "publishEvent_settled e ok s =
     (if ok then s\<lparr>delivered := delivered s @ [e]\<rparr>
      else s\<lparr>eventQueue := eventQueue s @ [e],
             console := console s @ [''[ZMQ] Failed to publish event:'']\<rparr>)"

definition publishEvent_call :: "'e \<Rightarrow> 'e proc \<Rightarrow> outcome \<times> 'e proc" where
  "publishEvent_call e s =
     (case publishEvent_body e s of
        (True, s1) \<Rightarrow> suspend (PublishSend e) s1
      | (False, s1) \<Rightarrow> (Returned, s1))"

text \<open>disconnect(), lines 80-83.\<close>

definition disconnect_call :: "'e proc \<Rightarrow> outcome \<times> 'e proc" where
  "disconnect_call s = (if publisher s \<noteq> None then suspend DisconnectClose s else (Returned, s))"

text \<open>
  The loop of lines 48-53, run by the connect call \<open>i\<close> from its head to the next await
  or to the end of connect(). An event is an object, so the test of line 50 holds.
\<close>

definition drain :: "nat \<Rightarrow> origin \<Rightarrow> 'e proc \<Rightarrow> 'e proc" where
  "drain i who s =
     (case eventQueue s of
        [] \<Rightarrow> s\<lparr>tasks := (tasks s)[i := Fulfilled]\<rparr>
      | e # q \<Rightarrow>
          (case publishEvent_body e (s\<lparr>eventQueue := q\<rparr>) of
             (w, s1) \<Rightarrow> s1\<lparr>tasks := (tasks s1)[i := ConnectDrain who (if w then Some e else None)]\<rparr>))"

text \<open>The catch block of lines 54-57, and the handler of line 65 for a background call.\<close>

definition connect_failed :: "nat \<Rightarrow> origin \<Rightarrow> 'e proc \<Rightarrow> 'e proc" where
  "connect_failed i who s =
     s\<lparr>tasks := (tasks s)[i := Rejected],
       console := console s @ ''[ZMQ] Failed to connect publisher:'' #
         (if who = Background then [''[ZMQ] Failed to connect during publish:''] else [])\<rparr>"

text \<open>
  The operation awaited by call \<open>i\<close> settles, fulfilled when \<open>ok\<close> and rejected otherwise,
  and the call runs to its next await or to its end. A timer and the promise of a call
  that has returned cannot reject: there \<open>ok\<close> is not read.
\<close>

definition resume :: "nat \<Rightarrow> bool \<Rightarrow> 'e proc \<Rightarrow> 'e proc" where
  "resume i ok s =
     (if i < length (tasks s) then
        (case tasks s ! i of
           ConnectDir who \<Rightarrow>
             if ok then s\<lparr>publisher := Some (sockets s), tasks := (tasks s)[i := ConnectSock who],
                         sockets := Suc (sockets s)\<rparr>
             else connect_failed i who s
         | ConnectSock who \<Rightarrow>
             if ok then s\<lparr>tasks := (tasks s)[i := ConnectSettle who]\<rparr>
             else connect_failed i who s
         | ConnectSettle who \<Rightarrow> drain i who (s\<lparr>isConnected := True\<rparr>)
         | ConnectDrain who (Some e) \<Rightarrow>
             (publishEvent_settled e ok s)\<lparr>tasks := (tasks s)[i := ConnectDrain who None]\<rparr>
         | ConnectDrain who None \<Rightarrow> drain i who s
         | PublishSend e \<Rightarrow> (publishEvent_settled e ok s)\<lparr>tasks := (tasks s)[i := Fulfilled]\<rparr>
         | DisconnectClose \<Rightarrow>
             s\<lparr>publisher := None, isConnected := False, tasks := (tasks s)[i := Fulfilled],
               console := console s @ (if ok then [] else [''[ZMQ] Error during disconnect:''])\<rparr>
         | Fulfilled \<Rightarrow> s
         | Rejected \<Rightarrow> s)
      else s)"

text \<open>A history of the object: calls from outside, and awaited operations settling.\<close>

datatype 'e action = CallConnect | CallPublish 'e | CallDisconnect | Settle nat bool

definition step :: "'e action \<Rightarrow> 'e proc \<Rightarrow> 'e proc" where
  "step a s =
     (case a of
        CallConnect \<Rightarrow> snd (connect_call Explicit s)
      | CallPublish e \<Rightarrow> snd (publishEvent_call e s)
      | CallDisconnect \<Rightarrow> snd (disconnect_call s)
      | Settle i ok \<Rightarrow> resume i ok s)"

definition run :: "'e action list \<Rightarrow> 'e proc \<Rightarrow> 'e proc" where
  "run acts s = fold step acts s"


section \<open>Histories of one publisher\<close>

text \<open>
  One round of the loop of lines 48-53 as its connect call \<open>i\<close> sees it: the send
  settles, then the await of line 51 is resumed. \<open>drain_rounds i oks\<close> is one round for
  each outcome of \<open>oks\<close>, with nothing else in between.
\<close>

fun drain_rounds :: "nat \<Rightarrow> bool list \<Rightarrow> 'e action list" where
  "drain_rounds i [] = []"
| "drain_rounds i (ok # oks) = Settle i ok # Settle i True # drain_rounds i oks"

text \<open>
  A call of connect() from outside that becomes call \<open>i\<close>, whose directory, socket and
  timer all succeed, followed by the rounds of the loop.
\<close>

definition connect_history :: "nat \<Rightarrow> bool list \<Rightarrow> 'e action list" where
  "connect_history i oks =
     CallConnect # Settle i True # Settle i True # Settle i True # drain_rounds i oks"

text \<open>disconnect() from its call to its return, the close fulfilled when \<open>ok\<close>.\<close>

definition disconnect_run :: "bool \<Rightarrow> 'e proc \<Rightarrow> 'e proc" where
  "disconnect_run ok s =
     (case disconnect_call s of
        (Returned, s1) \<Rightarrow> s1
      | (Pending i, s1) \<Rightarrow> resume i ok s1)"

text \<open>The calls of connect() that have started and not yet returned or thrown.\<close>

fun connecting :: "'e task \<Rightarrow> bool" where
  "connecting (ConnectDir who) = True"
| "connecting (ConnectSock who) = True"
| "connecting (ConnectSettle who) = True"
| "connecting (ConnectDrain who waiting) = True"
| "connecting (PublishSend e) = False"
| "connecting DisconnectClose = False"
| "connecting Fulfilled = False"
| "connecting Rejected = False"

definition inflight :: "'e proc \<Rightarrow> nat" where
  "inflight s = length (filter connecting (tasks s))"

section \<open>The registry\<close>

text \<open>
  The module-level map \<^verbatim>\<open>publisherInstances\<close> of line 93, in insertion order, and the
  publisher objects it refers to. An object is referred to by its position in
  \<open>instances\<close>; objects are never removed from there, so a reference stays valid after
  the map is cleared, as it does for whoever holds the object in the program.
\<close>

record 'e registry =
  instances :: "'e proc list"
  publisherInstances :: "(string \<times> nat) list"

definition registry0 :: "'e registry" where
  "registry0 = \<lparr>instances = [], publisherInstances = []\<rparr>"

text \<open>
  getZmqPublisher, lines 95-107. The function \<^verbatim>\<open>getZmqSocketPath\<close> of
  \<^verbatim>\<open>zmq-socket.js\<close> is the parameter \<open>getZmqSocketPath\<close>, and the type of the socket
  options is left open.
\<close>

definition getZmqPublisher :: "('o \<Rightarrow> string) \<Rightarrow> 'o \<Rightarrow> 'e registry \<Rightarrow> nat \<times> 'e registry" where
  "getZmqPublisher getZmqSocketPath socketOptions r =
     (let path = getZmqSocketPath socketOptions in
      case map_of (publisherInstances r) path of
        Some p \<Rightarrow> (p, r)
      | None \<Rightarrow>
          (length (instances r),
           r\<lparr>instances := instances r @ [new_publisher (getZmqSocketPath socketOptions)],
             publisherInstances := publisherInstances r @ [(path, length (instances r))]\<rparr>))"

text \<open>
  shutdownZmqPublisher, lines 109-114, from its call to its return with no other call in
  between: each registered publisher is disconnected in the order of the map, then the
  map is cleared. \<open>closes p\<close> tells whether the close of publisher \<open>p\<close> is fulfilled.
\<close>

definition shutdownZmqPublisher :: "(nat \<Rightarrow> bool) \<Rightarrow> 'e registry \<Rightarrow> 'e registry" where
  "shutdownZmqPublisher closes r =
     \<lparr>instances =
        fold (\<lambda>p objs. objs[p := disconnect_run (closes p) (objs ! p)])
          (map snd (publisherInstances r)) (instances r),
      publisherInstances = []\<rparr>"

text \<open>
  A history of the process: calls of the two registry functions, and actions on one of
  the publisher objects.
\<close>

datatype ('o, 'e) registry_action =
    Get 'o
  | Shutdown "nat \<Rightarrow> bool"
  | On nat "'e action"

definition registry_step ::
  "('o \<Rightarrow> string) \<Rightarrow> ('o, 'e) registry_action \<Rightarrow> 'e registry \<Rightarrow> 'e registry" where
  "registry_step getZmqSocketPath a r =
     (case a of
        Get socketOptions \<Rightarrow> snd (getZmqPublisher getZmqSocketPath socketOptions r)
      | Shutdown closes \<Rightarrow> shutdownZmqPublisher closes r
      | On p act \<Rightarrow>
          if p < length (instances r)
          then r\<lparr>instances := (instances r)[p := step act (instances r ! p)]\<rparr>
          else r)"

definition registry_run ::
  "('o \<Rightarrow> string) \<Rightarrow> ('o, 'e) registry_action list \<Rightarrow> 'e registry" where
  "registry_run getZmqSocketPath acts = fold (registry_step getZmqSocketPath) acts registry0"

fun keeps_registry :: "('o, 'e) registry_action \<Rightarrow> bool" where
  "keeps_registry (Shutdown closes) = False"
| "keeps_registry (Get socketOptions) = True"
| "keeps_registry (On p act) = True"

text \<open>
  What every history keeps true of the registry: an endpoint is registered once, an
  object is registered once, and every registered reference is to an object.
\<close>

definition registry_ok :: "'e registry \<Rightarrow> bool" where
  "registry_ok r =
     (distinct (map fst (publisherInstances r)) \<and> distinct (map snd (publisherInstances r))
      \<and> list_all (\<lambda>p. p < length (instances r)) (map snd (publisherInstances r)))"

section \<open>Running a history\<close>

lemma run_Nil: "run [] s = s"
  by (simp add: run_def)

lemma run_Cons: "run (a # acts) s = run acts (step a s)"
  by (simp add: run_def)

lemma run_append: "run (xs @ ys) s = run ys (run xs s)"
  by (simp add: run_def)

lemmas call_defs =
  step_def connect_call_def publishEvent_call_def publishEvent_body_def disconnect_call_def
  suspend_def

lemmas settle_defs =
  resume_def drain_def publishEvent_settled_def connect_failed_def

section \<open>Buffering while unconnected\<close>

lemma publishEvent_call_unconnected:
  "\<not> isConnected s \<Longrightarrow>
     publishEvent_call e s =
       (Returned, s\<lparr>eventQueue := eventQueue s @ [e], tasks := tasks s @ [ConnectDir Background]\<rparr>)"
  by (simp add: publishEvent_call_def publishEvent_body_def connect_call_def suspend_def)

lemma run_publish_unconnected:
  "\<not> isConnected s \<Longrightarrow>
     run (map CallPublish es) s =
       s\<lparr>eventQueue := eventQueue s @ es,
         tasks := tasks s @ replicate (length es) (ConnectDir Background)\<rparr>"
proof (induction es arbitrary: s)
  case Nil
  then show ?case by (simp add: run_def)
next
  case (Cons e es)
  let ?s1 = "s\<lparr>eventQueue := eventQueue s @ [e], tasks := tasks s @ [ConnectDir Background]\<rparr>"
  have "run (map CallPublish (e # es)) s = run (map CallPublish es) ?s1"
    using Cons.prems by (simp add: run_def step_def publishEvent_call_unconnected)
  also have "\<dots> = ?s1\<lparr>eventQueue := eventQueue ?s1 @ es,
         tasks := tasks ?s1 @ replicate (length es) (ConnectDir Background)\<rparr>"
    using Cons.prems by (intro Cons.IH) simp
  finally show ?case by (simp add: replicate_app_Cons_same)
qed

text \<open>
  C2. A call of publishEvent on an unconnected publisher returns at once and without
  error, appends the event at the tail of the pending queue and hands nothing to
  \<^verbatim>\<open>publisher.send\<close>; the publisher stays unconnected. After any sequence of such calls
  the queue is the old queue followed by the submitted events in submission order, so on
  a new publisher it is exactly the submitted events.
\<close>

theorem C2_publish_unconnected_buffers:
  assumes "\<not> isConnected s"
  shows "fst (publishEvent_call e s) = Returned
       \<and> eventQueue (snd (publishEvent_call e s)) = eventQueue s @ [e]
       \<and> sends (snd (publishEvent_call e s)) = sends s
       \<and> delivered (snd (publishEvent_call e s)) = delivered s
       \<and> console (snd (publishEvent_call e s)) = console s
       \<and> \<not> isConnected (snd (publishEvent_call e s))
       \<and> eventQueue (run (map CallPublish es) s) = eventQueue s @ es
       \<and> sends (run (map CallPublish es) s) = sends s
       \<and> delivered (run (map CallPublish es) s) = delivered s
       \<and> \<not> isConnected (run (map CallPublish es) s)
       \<and> eventQueue (run (map CallPublish es) (new_publisher path)) = es"
proof -
  have fresh: "\<not> isConnected (new_publisher path :: 'a proc)"
    by (simp add: new_publisher_def)
  have "eventQueue (run (map CallPublish es) (new_publisher path)) = es"
    by (simp add: run_publish_unconnected [OF fresh]) (simp add: new_publisher_def)
  then show ?thesis
    using assms
    by (simp add: publishEvent_call_unconnected run_publish_unconnected)
qed

theorem C2_publish_unconnected_buffers_witness:
  "\<not> isConnected (new_publisher ''ipc:///tmp/a.sock'' :: string proc)
   \<and> fst (publishEvent_call ''start'' (new_publisher ''ipc:///tmp/a.sock'')) = Returned
   \<and> eventQueue (run [CallPublish ''start'', CallPublish ''stop'']
        (new_publisher ''ipc:///tmp/a.sock'')) = [''start'', ''stop'']
   \<and> sends (run [CallPublish ''start'', CallPublish ''stop'']
        (new_publisher ''ipc:///tmp/a.sock'')) = []"
proof -
  have h: "\<not> isConnected (new_publisher ''ipc:///tmp/a.sock'' :: string proc)"
    by (simp add: new_publisher_def)
  show ?thesis
    using h C2_publish_unconnected_buffers
      [OF h, of "''start''" "[''start'', ''stop'']" "''ipc:///tmp/a.sock''"]
    by (simp add: new_publisher_def)
qed

section \<open>A connect that fails\<close>

text \<open>
  C3 as the specification states it fails: when the socket's own connect (line 42) is
  rejected, the call throws, but the socket constructed at line 40 stays in the field
  \<^verbatim>\<open>publisher\<close>. Here on a new publisher, whose field was \<^verbatim>\<open>null\<close> before the call.
\<close>

theorem C3_connect_failure_keeps_handle:
  "publisher (new_publisher ''ipc:///tmp/a.sock'' :: string proc) = None
   \<and> tasks (run [CallConnect, Settle 0 True, Settle 0 False]
        (new_publisher ''ipc:///tmp/a.sock'' :: string proc)) = [Rejected]
   \<and> publisher (run [CallConnect, Settle 0 True, Settle 0 False]
        (new_publisher ''ipc:///tmp/a.sock'' :: string proc)) = Some 0"
  by (simp add: run_Cons run_Nil call_defs settle_defs new_publisher_def)

text \<open>
  C3, amended. A call of connect() on an unconnected publisher becomes the call numbered
  \<open>length (tasks s)\<close>. When the creation of the socket directory is rejected, the call
  throws to its caller and the publisher is unconnected with its queue and its handle as
  before. When the socket's connect is rejected, the call throws to its caller and the
  publisher is unconnected with its queue as before, and its handle is the socket that
  the call constructed.
\<close>

theorem C3_connect_failure:
  assumes "\<not> isConnected s"
  shows "fst (connect_call Explicit s) = Pending (length (tasks s))
       \<and> tasks (run [CallConnect, Settle (length (tasks s)) False] s) ! length (tasks s) = Rejected
       \<and> \<not> isConnected (run [CallConnect, Settle (length (tasks s)) False] s)
       \<and> eventQueue (run [CallConnect, Settle (length (tasks s)) False] s) = eventQueue s
       \<and> publisher (run [CallConnect, Settle (length (tasks s)) False] s) = publisher s
       \<and> tasks (run [CallConnect, Settle (length (tasks s)) True, Settle (length (tasks s)) False] s)
            ! length (tasks s) = Rejected
       \<and> \<not> isConnected
            (run [CallConnect, Settle (length (tasks s)) True, Settle (length (tasks s)) False] s)
       \<and> eventQueue
            (run [CallConnect, Settle (length (tasks s)) True, Settle (length (tasks s)) False] s)
            = eventQueue s
       \<and> publisher
            (run [CallConnect, Settle (length (tasks s)) True, Settle (length (tasks s)) False] s)
            = Some (sockets s)"
  using assms
  by (simp add: run_Cons run_Nil call_defs settle_defs)

theorem C3_connect_failure_witness:
  "\<not> isConnected (run [CallPublish ''start''] (new_publisher ''ipc:///tmp/a.sock''))
   \<and> tasks (run [CallConnect, Settle 1 False]
        (run [CallPublish ''start''] (new_publisher ''ipc:///tmp/a.sock''))) ! 1 = Rejected
   \<and> eventQueue (run [CallConnect, Settle 1 True, Settle 1 False]
        (run [CallPublish ''start''] (new_publisher ''ipc:///tmp/a.sock''))) = [''start'']
   \<and> publisher (run [CallConnect, Settle 1 False]
        (run [CallPublish ''start''] (new_publisher ''ipc:///tmp/a.sock''))) = None
   \<and> publisher (run [CallConnect, Settle 1 True, Settle 1 False]
        (run [CallPublish ''start''] (new_publisher ''ipc:///tmp/a.sock''))) = Some 0"
proof -
  let ?s = "run [CallPublish ''start''] (new_publisher ''ipc:///tmp/a.sock'') :: string proc"
  have h: "\<not> isConnected ?s"
    by (simp add: run_Cons run_Nil call_defs new_publisher_def)
  have eval: "length (tasks ?s) = 1" "eventQueue ?s = [''start'']" "publisher ?s = None"
    "sockets ?s = 0"
    by (simp_all add: run_Cons run_Nil call_defs new_publisher_def)
  show ?thesis
    using h eval C3_connect_failure [OF h] by simp
qed

section \<open>A send that fails\<close>

text \<open>
  C4. On a connected publisher, publishEvent hands the event to \<^verbatim>\<open>publisher.send\<close> and
  awaits it. When that send is rejected, the call appends the event at the tail of the
  pending queue, writes one line to the error stream and returns (its promise is
  fulfilled, not rejected); the publisher is still connected and holds the same handle.
  A second event that fails afterwards is queued behind the first. Whatever happened
  since the call, a rejected send appends its event at the tail of the queue as it is
  then, and does not touch the flag \<^verbatim>\<open>isConnected\<close>.
\<close>

theorem C4_send_failure_requeues:
  assumes "isConnected s" and "publisher s \<noteq> None"
  shows "fst (publishEvent_call e s) = Pending (length (tasks s))
       \<and> tasks (snd (publishEvent_call e s)) = tasks s @ [PublishSend e]
       \<and> eventQueue (run [CallPublish e, Settle (length (tasks s)) False] s) = eventQueue s @ [e]
       \<and> isConnected (run [CallPublish e, Settle (length (tasks s)) False] s)
       \<and> publisher (run [CallPublish e, Settle (length (tasks s)) False] s) = publisher s
       \<and> tasks (run [CallPublish e, Settle (length (tasks s)) False] s) = tasks s @ [Fulfilled]
       \<and> console (run [CallPublish e, Settle (length (tasks s)) False] s)
           = console s @ [''[ZMQ] Failed to publish event:'']
       \<and> delivered (run [CallPublish e, Settle (length (tasks s)) False] s) = delivered s
       \<and> eventQueue (run [CallPublish e, Settle (length (tasks s)) False,
                          CallPublish e2, Settle (Suc (length (tasks s))) False] s)
           = eventQueue s @ [e, e2]
       \<and> (i < length (tasks t) \<and> tasks t ! i = PublishSend e \<longrightarrow>
            eventQueue (resume i False t) = eventQueue t @ [e]
          \<and> isConnected (resume i False t) = isConnected t
          \<and> tasks (resume i False t) ! i = Fulfilled)"
proof -
  have later: "eventQueue (resume i False t) = eventQueue t @ [e]
          \<and> isConnected (resume i False t) = isConnected t
          \<and> tasks (resume i False t) ! i = Fulfilled"
    if "i < length (tasks t)" and "tasks t ! i = PublishSend e"
    using that by (simp add: resume_def publishEvent_settled_def)
  show ?thesis
    using assms later
    by (simp add: run_Cons run_Nil call_defs settle_defs nth_append)
qed

theorem C4_send_failure_requeues_witness:
  "isConnected (run [CallConnect, Settle 0 True, Settle 0 True, Settle 0 True]
      (new_publisher ''ipc:///tmp/a.sock'' :: string proc))
   \<and> publisher (run [CallConnect, Settle 0 True, Settle 0 True, Settle 0 True]
      (new_publisher ''ipc:///tmp/a.sock'' :: string proc)) \<noteq> None
   \<and> eventQueue (run [CallPublish ''start'', Settle 1 False]
        (run [CallConnect, Settle 0 True, Settle 0 True, Settle 0 True]
          (new_publisher ''ipc:///tmp/a.sock''))) = [''start'']
   \<and> isConnected (run [CallPublish ''start'', Settle 1 False]
        (run [CallConnect, Settle 0 True, Settle 0 True, Settle 0 True]
          (new_publisher ''ipc:///tmp/a.sock'')))
   \<and> tasks (run [CallPublish ''start'', Settle 1 False]
        (run [CallConnect, Settle 0 True, Settle 0 True, Settle 0 True]
          (new_publisher ''ipc:///tmp/a.sock''))) = [Fulfilled, Fulfilled]
   \<and> eventQueue (run [CallPublish ''start'', Settle 1 False, CallPublish ''stop'', Settle 2 False]
        (run [CallConnect, Settle 0 True, Settle 0 True, Settle 0 True]
          (new_publisher ''ipc:///tmp/a.sock''))) = [''start'', ''stop'']
   \<and> tasks (run [CallConnect, Settle 0 True, Settle 0 True, Settle 0 True, CallPublish ''start'',
        CallDisconnect, Settle 2 True] (new_publisher ''ipc:///tmp/a.sock'')) ! 1 = PublishSend ''start''
   \<and> eventQueue (resume 1 False
        (run [CallConnect, Settle 0 True, Settle 0 True, Settle 0 True, CallPublish ''start'',
          CallDisconnect, Settle 2 True] (new_publisher ''ipc:///tmp/a.sock''))) = [''start'']
   \<and> \<not> isConnected (resume 1 False
        (run [CallConnect, Settle 0 True, Settle 0 True, Settle 0 True, CallPublish ''start'',
          CallDisconnect, Settle 2 True] (new_publisher ''ipc:///tmp/a.sock'')))"
proof -
  let ?s = "run [CallConnect, Settle 0 True, Settle 0 True, Settle 0 True]
      (new_publisher ''ipc:///tmp/a.sock'') :: string proc"
  let ?t = "run [CallConnect, Settle 0 True, Settle 0 True, Settle 0 True, CallPublish ''start'',
      CallDisconnect, Settle 2 True] (new_publisher ''ipc:///tmp/a.sock'') :: string proc"
  have eval: "isConnected ?s" "publisher ?s = Some 0" "tasks ?s = [Fulfilled]" "eventQueue ?s = []"
    by (simp_all add: run_Cons run_Nil call_defs settle_defs new_publisher_def)
  have later: "tasks ?t = [Fulfilled, PublishSend ''start'', Fulfilled]" "eventQueue ?t = []"
    "\<not> isConnected ?t"
    by (simp_all add: run_Cons run_Nil call_defs settle_defs new_publisher_def)
  have h1: "isConnected ?s" and h2: "publisher ?s \<noteq> None"
    by (simp_all add: eval)
  show ?thesis
    using eval later C4_send_failure_requeues [OF h1 h2, of "''start''" "''stop''" 1 ?t]
    by (simp add: numeral_2_eq_2)
qed

section \<open>Connection attempts in flight\<close>

lemma inflight_publish:
  "inflight (snd (publishEvent_call e s)) = (if isConnected s then inflight s else Suc (inflight s))"
  by (simp add: inflight_def publishEvent_call_def publishEvent_body_def connect_call_def
      suspend_def)

text \<open>
  C5 as the specification states it fails: two calls of publishEvent on a new publisher
  leave two calls of connect() in flight, both awaiting the socket directory.
\<close>

theorem C5_two_attempts_in_flight:
  "tasks (run [CallPublish ''start'', CallPublish ''stop''] (new_publisher ''ipc:///tmp/a.sock''))
     = [ConnectDir Background, ConnectDir Background]
   \<and> inflight (run [CallPublish ''start'', CallPublish ''stop'']
       (new_publisher ''ipc:///tmp/a.sock'')) = 2"
  by (simp add: run_Cons run_Nil call_defs new_publisher_def inflight_def)

text \<open>
  C5, amended. Every call of publishEvent on an unconnected publisher starts a call of
  connect(), whether or not another one is in flight: the number in flight grows by one
  with each such call. The only guard is the flag \<^verbatim>\<open>isConnected\<close>: on a connected
  publisher publishEvent starts no call of connect(), and connect() returns at once.
\<close>

theorem C5_background_connect_per_publish:
  "(\<not> isConnected s \<longrightarrow>
        inflight (snd (publishEvent_call e s)) = Suc (inflight s)
      \<and> inflight (run (map CallPublish es) s) = inflight s + length es)
   \<and> (isConnected s \<longrightarrow>
        inflight (snd (publishEvent_call e s)) = inflight s
      \<and> connect_call who s = (Returned, s))"
proof -
  have "inflight (run (map CallPublish es) s) = inflight s + length es" if "\<not> isConnected s"
    using that by (simp add: run_publish_unconnected) (simp add: inflight_def)
  then show ?thesis
    by (simp add: inflight_publish connect_call_def)
qed

theorem C5_background_connect_per_publish_witness:
  "\<not> isConnected (new_publisher ''ipc:///tmp/a.sock'' :: string proc)
   \<and> inflight (new_publisher ''ipc:///tmp/a.sock'' :: string proc) = 0
   \<and> inflight (snd (publishEvent_call ''start'' (new_publisher ''ipc:///tmp/a.sock''))) = 1
   \<and> inflight (run (map CallPublish [''start'', ''stop'', ''start''])
       (new_publisher ''ipc:///tmp/a.sock'')) = 3
   \<and> isConnected (run [CallConnect, Settle 0 True, Settle 0 True, Settle 0 True]
       (new_publisher ''ipc:///tmp/a.sock'' :: string proc))
   \<and> inflight (snd (publishEvent_call ''start''
       (run [CallConnect, Settle 0 True, Settle 0 True, Settle 0 True]
         (new_publisher ''ipc:///tmp/a.sock'')))) = 0
   \<and> fst (connect_call Explicit (run [CallConnect, Settle 0 True, Settle 0 True, Settle 0 True]
       (new_publisher ''ipc:///tmp/a.sock'' :: string proc))) = Returned"
proof -
  let ?s = "run [CallConnect, Settle 0 True, Settle 0 True, Settle 0 True]
      (new_publisher ''ipc:///tmp/a.sock'') :: string proc"
  have h: "\<not> isConnected (new_publisher ''ipc:///tmp/a.sock'' :: string proc)"
    and z: "inflight (new_publisher ''ipc:///tmp/a.sock'' :: string proc) = 0"
    by (simp_all add: new_publisher_def inflight_def)
  have c: "isConnected ?s" "inflight ?s = 0"
    by (simp_all add: run_Cons run_Nil call_defs settle_defs new_publisher_def inflight_def)
  show ?thesis
    using h z c
      C5_background_connect_per_publish
        [of "new_publisher ''ipc:///tmp/a.sock''" "''start''" "[''start'', ''stop'', ''start'']"]
      C5_background_connect_per_publish [of ?s "''start''" "[]" Explicit]
    by simp
qed

section \<open>Disconnecting\<close>

lemma publisher_disconnect_run: "publisher (disconnect_run ok s) = None"
  by (simp add: disconnect_run_def disconnect_call_def suspend_def resume_def)

lemma isConnected_disconnect_run:
  "publisher s \<noteq> None \<Longrightarrow> \<not> isConnected (disconnect_run ok s)"
  by (simp add: disconnect_run_def disconnect_call_def suspend_def resume_def)

text \<open>
  C9 as the specification states it fails, in two ways, both through the test of line
  81. First, disconnect() does not always mark the publisher disconnected: when a
  disconnect() has completed while a connect() was waiting for its timer, the timer
  then sets the flag (line 46) on a publisher whose handle is \<^verbatim>\<open>null\<close>, and a later
  disconnect() skips the body of its \<^verbatim>\<open>if\<close> and leaves the publisher flagged connected.
  Second, disconnect() on a publisher that never connected does not always change
  nothing: after a connect() that failed at line 42 the handle of line 40 is still held,
  and disconnect() clears it.
\<close>

theorem C9_disconnect_skips_without_handle:
  "publisher (run [CallConnect, Settle 0 True, Settle 0 True, CallDisconnect, Settle 1 True,
       Settle 0 True] (new_publisher ''ipc:///tmp/a.sock'' :: string proc)) = None
   \<and> isConnected (run [CallConnect, Settle 0 True, Settle 0 True, CallDisconnect, Settle 1 True,
       Settle 0 True] (new_publisher ''ipc:///tmp/a.sock'' :: string proc))
   \<and> isConnected (disconnect_run True
       (run [CallConnect, Settle 0 True, Settle 0 True, CallDisconnect, Settle 1 True,
         Settle 0 True] (new_publisher ''ipc:///tmp/a.sock'' :: string proc)))
   \<and> \<not> isConnected (run [CallConnect, Settle 0 True, Settle 0 False]
       (new_publisher ''ipc:///tmp/a.sock'' :: string proc))
   \<and> publisher (run [CallConnect, Settle 0 True, Settle 0 False]
       (new_publisher ''ipc:///tmp/a.sock'' :: string proc)) = Some 0
   \<and> publisher (disconnect_run True (run [CallConnect, Settle 0 True, Settle 0 False]
       (new_publisher ''ipc:///tmp/a.sock'' :: string proc))) = None"
proof -
  let ?new = "new_publisher ''ipc:///tmp/a.sock'' :: string proc"
  let ?s = "run [CallConnect, Settle 0 True, Settle 0 True, CallDisconnect, Settle 1 True,
       Settle 0 True] ?new"
  let ?t = "run [CallConnect, Settle 0 True, Settle 0 False] ?new"
  have s: "?s = \<lparr>publisher = None, isConnected = True, eventQueue = [],
      socketPath = ''ipc:///tmp/a.sock'', tasks = [Fulfilled, Fulfilled], sockets = 1,
      sends = [], delivered = [], console = []\<rparr>"
    by (simp add: run_Cons run_Nil call_defs settle_defs new_publisher_def)
  have t: "?t = \<lparr>publisher = Some 0, isConnected = False, eventQueue = [],
      socketPath = ''ipc:///tmp/a.sock'', tasks = [Rejected], sockets = 1,
      sends = [], delivered = [], console = [''[ZMQ] Failed to connect publisher:'']\<rparr>"
    by (simp add: run_Cons run_Nil call_defs settle_defs new_publisher_def)
  have "isConnected (disconnect_run True ?s)"
    unfolding s by (simp add: disconnect_run_def disconnect_call_def)
  moreover have "publisher (disconnect_run True ?t) = None"
    unfolding t by (simp add: disconnect_run_def disconnect_call_def suspend_def resume_def)
  moreover have "publisher ?s = None" "isConnected ?s" "\<not> isConnected ?t" "publisher ?t = Some 0"
    unfolding s t by simp_all
  ultimately show ?thesis by simp
qed

text \<open>
  C9, amended. On a publisher that holds no handle (a new one, or one already
  disconnected) disconnect() returns at once and changes nothing, so a second
  disconnect() changes nothing. On a publisher that holds a handle it awaits the close
  and then, whether the close was fulfilled or rejected, returns without throwing with
  the handle cleared and the publisher marked disconnected. After disconnect() the
  publisher holds no handle, and in both cases the pending queue is as before. Whatever
  happened between the call and the settling of the close, the call then clears the
  handle and the flag, returns, and leaves the queue as it is.
\<close>

theorem C9_disconnect_idempotent:
  "(publisher s = None \<longrightarrow> disconnect_call s = (Returned, s))
   \<and> publisher (disconnect_run ok s) = None
   \<and> (publisher s \<noteq> None \<longrightarrow>
        \<not> isConnected (disconnect_run ok s) \<and> tasks (disconnect_run ok s) = tasks s @ [Fulfilled])
   \<and> eventQueue (disconnect_run ok s) = eventQueue s
   \<and> disconnect_call (disconnect_run ok s) = (Returned, disconnect_run ok s)
   \<and> disconnect_run ok2 (disconnect_run ok s) = disconnect_run ok s
   \<and> (i < length (tasks t) \<and> tasks t ! i = DisconnectClose \<longrightarrow>
        publisher (resume i ok t) = None \<and> \<not> isConnected (resume i ok t)
      \<and> eventQueue (resume i ok t) = eventQueue t \<and> tasks (resume i ok t) ! i = Fulfilled)"
proof -
  have none: "disconnect_call s = (Returned, s)" if "publisher s = None" for s :: "'a proc"
    using that by (simp add: disconnect_call_def)
  have again: "disconnect_call (disconnect_run ok s) = (Returned, disconnect_run ok s)"
    by (rule none) (rule publisher_disconnect_run)
  then have "disconnect_run ok2 (disconnect_run ok s) = disconnect_run ok s"
    by (simp add: disconnect_run_def [of ok2])
  moreover have "eventQueue (disconnect_run ok s) = eventQueue s"
    by (simp add: disconnect_run_def disconnect_call_def suspend_def resume_def)
  moreover have "tasks (disconnect_run ok s) = tasks s @ [Fulfilled]" if "publisher s \<noteq> None"
    using that by (simp add: disconnect_run_def disconnect_call_def suspend_def resume_def)
  moreover have "publisher (resume i ok t) = None \<and> \<not> isConnected (resume i ok t)
      \<and> eventQueue (resume i ok t) = eventQueue t \<and> tasks (resume i ok t) ! i = Fulfilled"
    if "i < length (tasks t)" and "tasks t ! i = DisconnectClose"
    using that by (simp add: resume_def)
  ultimately show ?thesis
    using none again by (simp add: publisher_disconnect_run isConnected_disconnect_run)
qed

theorem C9_disconnect_idempotent_witness:
  "disconnect_call (new_publisher ''ipc:///tmp/a.sock'' :: string proc)
     = (Returned, new_publisher ''ipc:///tmp/a.sock'')
   \<and> publisher (run [CallConnect, Settle 0 True, Settle 0 True, Settle 0 True, CallPublish ''start'',
        Settle 1 False] (new_publisher ''ipc:///tmp/a.sock'')) = Some 0
   \<and> \<not> isConnected (disconnect_run False
        (run [CallConnect, Settle 0 True, Settle 0 True, Settle 0 True, CallPublish ''start'',
          Settle 1 False] (new_publisher ''ipc:///tmp/a.sock'')))
   \<and> publisher (disconnect_run False
        (run [CallConnect, Settle 0 True, Settle 0 True, Settle 0 True, CallPublish ''start'',
          Settle 1 False] (new_publisher ''ipc:///tmp/a.sock''))) = None
   \<and> eventQueue (disconnect_run False
        (run [CallConnect, Settle 0 True, Settle 0 True, Settle 0 True, CallPublish ''start'',
          Settle 1 False] (new_publisher ''ipc:///tmp/a.sock''))) = [''start'']
   \<and> tasks (run [CallConnect, Settle 0 True, Settle 0 True, Settle 0 True, CallDisconnect,
        CallPublish ''start''] (new_publisher ''ipc:///tmp/a.sock'')) ! 1 = DisconnectClose
   \<and> eventQueue (resume 1 True
        (run [CallConnect, Settle 0 True, Settle 0 True, Settle 0 True, CallDisconnect,
          CallPublish ''start''] (new_publisher ''ipc:///tmp/a.sock''))) = []
   \<and> publisher (resume 1 True
        (run [CallConnect, Settle 0 True, Settle 0 True, Settle 0 True, CallDisconnect,
          CallPublish ''start''] (new_publisher ''ipc:///tmp/a.sock''))) = None"
proof -
  let ?new = "new_publisher ''ipc:///tmp/a.sock'' :: string proc"
  let ?s = "run [CallConnect, Settle 0 True, Settle 0 True, Settle 0 True, CallPublish ''start'',
          Settle 1 False] ?new"
  have new: "publisher ?new = None"
    by (simp add: new_publisher_def)
  have eval: "publisher ?s = Some 0" "eventQueue ?s = [''start'']"
    by (simp_all add: run_Cons run_Nil call_defs settle_defs new_publisher_def)
  let ?t = "run [CallConnect, Settle 0 True, Settle 0 True, Settle 0 True, CallDisconnect,
          CallPublish ''start''] ?new"
  have closing: "tasks ?t = [Fulfilled, DisconnectClose, PublishSend ''start'']" "eventQueue ?t = []"
    by (simp_all add: run_Cons run_Nil call_defs settle_defs new_publisher_def)
  show ?thesis
    using new eval closing C9_disconnect_idempotent [of ?new False False 1 ?t]
      C9_disconnect_idempotent [of ?s False False 1 ?t]
      C9_disconnect_idempotent [of ?s True True 1 ?t]
    by simp
qed

section \<open>The drain loop of connect()\<close>

text \<open>One round of the loop when the send is fulfilled: the last one, and any other.\<close>

lemma round_ok_last:
  assumes "i < length (tasks s)" and "tasks s ! i = ConnectDrain who (Some e)"
    and "eventQueue s = []"
  shows "resume i True (resume i True s) =
           s\<lparr>tasks := (tasks s)[i := Fulfilled], delivered := delivered s @ [e]\<rparr>"
  using assms by (simp add: resume_def publishEvent_settled_def drain_def)

lemma publishEvent_body_connected:
  "isConnected s \<Longrightarrow> publisher s \<noteq> None \<Longrightarrow>
     publishEvent_body e s = (True, s\<lparr>sends := sends s @ [e]\<rparr>)"
  by (auto simp: publishEvent_body_def)

lemma round_ok_next:
  assumes "i < length (tasks s)" and "tasks s ! i = ConnectDrain who (Some e)"
    and "eventQueue s = e' # q" and "isConnected s" and "publisher s \<noteq> None"
  shows "resume i True (resume i True s) =
           s\<lparr>eventQueue := q, tasks := (tasks s)[i := ConnectDrain who (Some e')],
              sends := sends s @ [e'], delivered := delivered s @ [e]\<rparr>"
  using assms by (simp add: resume_def publishEvent_settled_def drain_def publishEvent_body_connected)

lemma drain_all_ok:
  assumes "i < length (tasks s)" and "tasks s ! i = ConnectDrain who (Some e)"
    and "isConnected s" and "publisher s \<noteq> None" and "eventQueue s = q"
  shows "run (drain_rounds i (replicate (Suc (length q)) True)) s =
           s\<lparr>eventQueue := [], tasks := (tasks s)[i := Fulfilled],
              sends := sends s @ q, delivered := delivered s @ e # q\<rparr>"
  using assms
proof (induction q arbitrary: s e)
  case Nil
  then show ?case
    by (simp add: run_Cons run_Nil step_def round_ok_last)
next
  case (Cons e' q)
  let ?s1 = "s\<lparr>eventQueue := q, tasks := (tasks s)[i := ConnectDrain who (Some e')],
              sends := sends s @ [e'], delivered := delivered s @ [e]\<rparr>"
  have "run (drain_rounds i (replicate (Suc (length (e' # q))) True)) s =
        run (drain_rounds i (replicate (Suc (length q)) True)) ?s1"
    using Cons.prems by (simp add: run_Cons step_def round_ok_next)
  also have "\<dots> = ?s1\<lparr>eventQueue := [], tasks := (tasks ?s1)[i := Fulfilled],
              sends := sends ?s1 @ q, delivered := delivered ?s1 @ e' # q\<rparr>"
    using Cons.prems by (intro Cons.IH) simp_all
  finally show ?case by simp
qed

lemma connect_until_drain:
  assumes "\<not> isConnected s"
  shows "run [CallConnect, Settle (length (tasks s)) True, Settle (length (tasks s)) True,
              Settle (length (tasks s)) True] s =
           (case eventQueue s of
              [] \<Rightarrow> s\<lparr>publisher := Some (sockets s), isConnected := True,
                      tasks := tasks s @ [Fulfilled], sockets := Suc (sockets s)\<rparr>
            | e # q \<Rightarrow> s\<lparr>publisher := Some (sockets s), isConnected := True, eventQueue := q,
                      tasks := tasks s @ [ConnectDrain Explicit (Some e)],
                      sockets := Suc (sockets s), sends := sends s @ [e]\<rparr>)"
  using assms
  by (simp add: run_Cons run_Nil step_def connect_call_def suspend_def resume_def drain_def
      publishEvent_body_def split: list.split)

lemma connect_all_ok:
  assumes "\<not> isConnected s"
  shows "run (connect_history (length (tasks s)) (replicate (length (eventQueue s)) True)) s =
           s\<lparr>publisher := Some (sockets s), isConnected := True, eventQueue := [],
             tasks := tasks s @ [Fulfilled], sockets := Suc (sockets s),
             sends := sends s @ eventQueue s, delivered := delivered s @ eventQueue s\<rparr>"
proof (cases "eventQueue s")
  case Nil
  then show ?thesis
    using connect_until_drain [OF assms]
    by (simp add: connect_history_def)
next
  case (Cons e q)
  let ?n = "length (tasks s)"
  let ?s1 = "s\<lparr>publisher := Some (sockets s), isConnected := True, eventQueue := q,
                      tasks := tasks s @ [ConnectDrain Explicit (Some e)],
                      sockets := Suc (sockets s), sends := sends s @ [e]\<rparr>"
  have split: "connect_history ?n (replicate (length (eventQueue s)) True) =
      [CallConnect, Settle ?n True, Settle ?n True, Settle ?n True]
        @ drain_rounds ?n (replicate (Suc (length q)) True)"
    by (simp add: connect_history_def Cons)
  have "run (connect_history ?n (replicate (length (eventQueue s)) True)) s =
        run (drain_rounds ?n (replicate (Suc (length q)) True)) ?s1"
    unfolding split run_append using connect_until_drain [OF assms] by (simp add: Cons)
  also have "\<dots> = ?s1\<lparr>eventQueue := [], tasks := (tasks ?s1)[?n := Fulfilled],
              sends := sends ?s1 @ q, delivered := delivered ?s1 @ e # q\<rparr>"
    by (rule drain_all_ok [where who = Explicit]) simp_all
  finally show ?thesis by (simp add: Cons)
qed

lemma round_failed:
  assumes "i < length (tasks s)" and "tasks s ! i = ConnectDrain who (Some e)"
    and "isConnected s" and "publisher s \<noteq> None"
  shows "resume i True (resume i False s) =
           s\<lparr>eventQueue := tl (eventQueue s @ [e]),
              tasks := (tasks s)[i := ConnectDrain who (Some (hd (eventQueue s @ [e])))],
              sends := sends s @ [hd (eventQueue s @ [e])],
              console := console s @ [''[ZMQ] Failed to publish event:'']\<rparr>"
  using assms
  by (cases "eventQueue s")
    (simp_all add: resume_def publishEvent_settled_def drain_def publishEvent_body_connected)

lemma drain_all_failed:
  assumes "i < length (tasks s)" and "tasks s ! i = ConnectDrain who (Some e)"
    and "isConnected s" and "publisher s \<noteq> None"
  shows "tasks (run (drain_rounds i (replicate k False)) s) ! i
           = ConnectDrain who (Some (hd (rotate k (e # eventQueue s))))
       \<and> eventQueue (run (drain_rounds i (replicate k False)) s) = tl (rotate k (e # eventQueue s))"
  using assms
proof (induction k arbitrary: s e)
  case 0
  then show ?case by (simp add: run_Nil)
next
  case (Suc k)
  let ?s1 = "s\<lparr>eventQueue := tl (eventQueue s @ [e]),
              tasks := (tasks s)[i := ConnectDrain who (Some (hd (eventQueue s @ [e])))],
              sends := sends s @ [hd (eventQueue s @ [e])],
              console := console s @ [''[ZMQ] Failed to publish event:'']\<rparr>"
  have run1: "run (drain_rounds i (replicate (Suc k) False)) s =
        run (drain_rounds i (replicate k False)) ?s1"
    using Suc.prems by (simp add: run_Cons step_def round_failed)
  have rot: "hd (eventQueue s @ [e]) # tl (eventQueue s @ [e]) = rotate1 (e # eventQueue s)"
    by simp
  have "tasks (run (drain_rounds i (replicate k False)) ?s1) ! i
           = ConnectDrain who (Some (hd (rotate k (hd (eventQueue s @ [e]) # eventQueue ?s1))))
       \<and> eventQueue (run (drain_rounds i (replicate k False)) ?s1)
           = tl (rotate k (hd (eventQueue s @ [e]) # eventQueue ?s1))"
    using Suc.prems by (intro Suc.IH) simp_all
  then show ?case
    unfolding run1 using rot by (simp add: rotate1_rotate_swap del: rotate1.simps)
qed

text \<open>
  C1 as the specification states it fails: two events are buffered on a new publisher,
  connect() is called and succeeds, and the first send of the drain is rejected. The
  event is queued again behind the second one, so the sends that are fulfilled are out
  of submission order, although connect() returns without error with the queue empty.
\<close>

theorem C1_failed_send_reorders:
  "eventQueue (run [CallPublish ''start'', CallPublish ''stop''] (new_publisher ''ipc:///tmp/a.sock''))
     = [''start'', ''stop'']
   \<and> tasks (run ([CallPublish ''start'', CallPublish ''stop''] @ connect_history 2 [False, True, True])
        (new_publisher ''ipc:///tmp/a.sock''))
     = [ConnectDir Background, ConnectDir Background, Fulfilled]
   \<and> eventQueue (run ([CallPublish ''start'', CallPublish ''stop'']
          @ connect_history 2 [False, True, True]) (new_publisher ''ipc:///tmp/a.sock'')) = []
   \<and> delivered (run ([CallPublish ''start'', CallPublish ''stop'']
          @ connect_history 2 [False, True, True]) (new_publisher ''ipc:///tmp/a.sock''))
     = [''stop'', ''start'']"
  by (simp add: connect_history_def run_Cons run_Nil call_defs settle_defs new_publisher_def)

text \<open>
  C1, amended. Let connect() be called on an unconnected publisher and succeed, and let
  every send of its drain be fulfilled, with no other step of the publisher in between.
  Then the call returns without error with the publisher connected and the queue empty;
  the buffered events have been handed to \<^verbatim>\<open>publisher.send\<close>, and their sends fulfilled,
  one by one in the order of the queue, which is submission order; and an event
  published after the call has returned is handed to \<^verbatim>\<open>publisher.send\<close> after all of
  them. (A send that is rejected puts its event back behind the events still queued.)
\<close>

theorem C1_connect_drains_fifo:
  assumes "\<not> isConnected s"
  shows "let s' = run (connect_history (length (tasks s)) (replicate (length (eventQueue s)) True)) s
         in tasks s' ! length (tasks s) = Fulfilled
          \<and> isConnected s'
          \<and> eventQueue s' = []
          \<and> sends s' = sends s @ eventQueue s
          \<and> delivered s' = delivered s @ eventQueue s
          \<and> fst (publishEvent_call e s') = Pending (Suc (length (tasks s)))
          \<and> sends (snd (publishEvent_call e s')) = sends s @ eventQueue s @ [e]
          \<and> (i < length (tasks t) \<and> tasks t ! i = ConnectDrain who (Some ev) \<longrightarrow>
               eventQueue (resume i False t) = eventQueue t @ [ev]
             \<and> tasks (resume i False t) ! i = ConnectDrain who None)"
proof -
  have requeued: "eventQueue (resume i False t) = eventQueue t @ [ev]
             \<and> tasks (resume i False t) ! i = ConnectDrain who None"
    if "i < length (tasks t)" and "tasks t ! i = ConnectDrain who (Some ev)"
    using that by (simp add: resume_def publishEvent_settled_def)
  show ?thesis
    unfolding Let_def connect_all_ok [OF assms]
    using requeued
    by (simp add: publishEvent_call_def publishEvent_body_def suspend_def)
qed

theorem C1_connect_drains_fifo_witness:
  "\<not> isConnected (run [CallPublish ''start'', CallPublish ''stop'']
        (new_publisher ''ipc:///tmp/a.sock''))
   \<and> eventQueue (run [CallPublish ''start'', CallPublish ''stop'']
        (new_publisher ''ipc:///tmp/a.sock'')) = [''start'', ''stop'']
   \<and> tasks (run (connect_history 2 [True, True])
        (run [CallPublish ''start'', CallPublish ''stop''] (new_publisher ''ipc:///tmp/a.sock''))) ! 2
      = Fulfilled
   \<and> delivered (run (connect_history 2 [True, True])
        (run [CallPublish ''start'', CallPublish ''stop''] (new_publisher ''ipc:///tmp/a.sock'')))
      = [''start'', ''stop'']
   \<and> sends (snd (publishEvent_call ''next'' (run (connect_history 2 [True, True])
        (run [CallPublish ''start'', CallPublish ''stop''] (new_publisher ''ipc:///tmp/a.sock'')))))
      = [''start'', ''stop'', ''next'']
   \<and> tasks (run (connect_history 2 [])
        (run [CallPublish ''start'', CallPublish ''stop''] (new_publisher ''ipc:///tmp/a.sock''))) ! 2
      = ConnectDrain Explicit (Some ''start'')
   \<and> eventQueue (resume 2 False (run (connect_history 2 [])
        (run [CallPublish ''start'', CallPublish ''stop''] (new_publisher ''ipc:///tmp/a.sock''))))
      = [''stop'', ''start'']"
proof -
  let ?s = "run [CallPublish ''start'', CallPublish ''stop'']
        (new_publisher ''ipc:///tmp/a.sock'') :: string proc"
  let ?t = "run (connect_history 2 []) ?s"
  have h: "\<not> isConnected ?s"
    by (simp add: run_Cons run_Nil call_defs new_publisher_def)
  have eval: "length (tasks ?s) = 2" "eventQueue ?s = [''start'', ''stop'']" "sends ?s = []"
    "delivered ?s = []"
    by (simp_all add: run_Cons run_Nil call_defs new_publisher_def)
  have draining: "tasks ?t = [ConnectDir Background, ConnectDir Background,
      ConnectDrain Explicit (Some ''start'')]" "eventQueue ?t = [''stop'']"
    by (simp_all add: connect_history_def run_Cons run_Nil call_defs settle_defs new_publisher_def)
  show ?thesis
    using h eval draining C1_connect_drains_fifo [OF h, of "''next''" 2 ?t Explicit "''start''"]
    by (simp add: Let_def numeral_2_eq_2)
qed

section \<open>Termination of the drain loop\<close>

text \<open>
  The loop left alone. Let connect() be called on an unconnected publisher and succeed,
  with no other step of the publisher until it returns. When every send of the drain is
  fulfilled, the call has returned after as many rounds of the loop as events were
  queued. When every send is rejected and the queue was not empty, the call is still
  inside the loop after any number \<open>k\<close> of rounds: each rejected event goes back to the
  tail, so the event being sent and the queue behind it are the original queue rotated
  \<open>k\<close> times.
\<close>

theorem drain_left_alone:
  assumes "\<not> isConnected s"
  shows "tasks (run (connect_history (length (tasks s)) (replicate (length (eventQueue s)) True)) s)
           ! length (tasks s) = Fulfilled
       \<and> (eventQueue s \<noteq> [] \<longrightarrow>
            tasks (run (connect_history (length (tasks s)) (replicate k False)) s) ! length (tasks s)
              = ConnectDrain Explicit (Some (hd (rotate k (eventQueue s))))
          \<and> eventQueue (run (connect_history (length (tasks s)) (replicate k False)) s)
              = tl (rotate k (eventQueue s)))"
proof -
  let ?n = "length (tasks s)"
  have finished: "tasks (run (connect_history ?n (replicate (length (eventQueue s)) True)) s) ! ?n
      = Fulfilled"
    by (simp add: connect_all_ok [OF assms])
  have spin: "tasks (run (connect_history ?n (replicate k False)) s) ! ?n
              = ConnectDrain Explicit (Some (hd (rotate k (eventQueue s))))
          \<and> eventQueue (run (connect_history ?n (replicate k False)) s)
              = tl (rotate k (eventQueue s))"
    if "eventQueue s = e # q" for e q
  proof -
    let ?s1 = "s\<lparr>publisher := Some (sockets s), isConnected := True, eventQueue := q,
                      tasks := tasks s @ [ConnectDrain Explicit (Some e)],
                      sockets := Suc (sockets s), sends := sends s @ [e]\<rparr>"
    have split: "connect_history ?n (replicate k False) =
        [CallConnect, Settle ?n True, Settle ?n True, Settle ?n True]
          @ drain_rounds ?n (replicate k False)"
      by (simp add: connect_history_def)
    have "run (connect_history ?n (replicate k False)) s
        = run (drain_rounds ?n (replicate k False)) ?s1"
      unfolding split run_append using connect_until_drain [OF assms] by (simp add: that)
    moreover have "tasks (run (drain_rounds ?n (replicate k False)) ?s1) ! ?n
           = ConnectDrain Explicit (Some (hd (rotate k (e # eventQueue ?s1))))
       \<and> eventQueue (run (drain_rounds ?n (replicate k False)) ?s1)
           = tl (rotate k (e # eventQueue ?s1))"
      by (rule drain_all_failed) simp_all
    ultimately show ?thesis by (simp add: that)
  qed
  show ?thesis
    using finished spin by (cases "eventQueue s") simp_all
qed

text \<open>
  The loop when its publisher has been disconnected: publishEvent takes its unconnected
  branch, so each round puts the event back at the tail and starts one more call of
  connect(), and the loop goes on.
\<close>

lemma tick_unconnected:
  assumes "i < length (tasks t)" and "tasks t ! i = ConnectDrain who None"
    and "\<not> isConnected t" and "eventQueue t = e # q"
  shows "resume i True t =
           t\<lparr>eventQueue := q @ [e], tasks := tasks t @ [ConnectDir Background]\<rparr>"
proof -
  have "(tasks t @ [ConnectDir Background])[i := ConnectDrain who None]
      = tasks t @ [ConnectDir Background]"
    using assms(1,2) by (simp add: list_update_append1) (metis list_update_id)
  then show ?thesis
    using assms
    by (simp add: resume_def drain_def publishEvent_body_def connect_call_def suspend_def)
qed

lemma spin_unconnected:
  assumes "i < length (tasks t)" and "tasks t ! i = ConnectDrain who None"
    and "\<not> isConnected t" and "eventQueue t \<noteq> []"
  shows "run (replicate k (Settle i True)) t =
           t\<lparr>eventQueue := rotate k (eventQueue t),
              tasks := tasks t @ replicate k (ConnectDir Background)\<rparr>"
  using assms
proof (induction k arbitrary: t)
  case 0
  then show ?case by (simp add: run_Nil)
next
  case (Suc k)
  from Suc.prems(4) obtain e q where queue: "eventQueue t = e # q"
    by (cases "eventQueue t") auto
  let ?t1 = "t\<lparr>eventQueue := q @ [e], tasks := tasks t @ [ConnectDir Background]\<rparr>"
  have "run (replicate (Suc k) (Settle i True)) t = run (replicate k (Settle i True)) ?t1"
    using Suc.prems(1-3) queue by (simp add: run_Cons step_def tick_unconnected)
  also have "\<dots> = ?t1\<lparr>eventQueue := rotate k (eventQueue ?t1),
              tasks := tasks ?t1 @ replicate k (ConnectDir Background)\<rparr>"
    using Suc.prems(1-3) by (intro Suc.IH) (simp_all add: nth_append)
  finally show ?case
    using queue by (simp add: replicate_app_Cons_same rotate1_rotate_swap)
qed

text \<open>
  C10. The loop does not end in every run in which every send of the drain succeeds.
  Two events are buffered on a new publisher, connect() is called and succeeds and
  awaits the send of the first event; then disconnect() is called and its close
  completes, and the send is fulfilled. From there on, after any number \<open>k\<close> of further
  rounds of the loop the call of connect() is still inside it: the second event is still
  queued, \<open>k\<close> more calls of connect() are in flight, the only send made has been
  fulfilled and nothing has been written to the error stream.
\<close>

theorem C10_disconnect_during_drain:
  "let s = run ([CallPublish ''start'', CallPublish ''stop''] @ connect_history 2 []
           @ [CallDisconnect, Settle 3 True, Settle 2 True] @ replicate k (Settle 2 True))
         (new_publisher ''ipc:///tmp/a.sock'')
   in tasks s ! 2 = ConnectDrain Explicit None
    \<and> eventQueue s = [''stop'']
    \<and> sends s = [''start''] \<and> delivered s = [''start''] \<and> console s = []
    \<and> inflight s = 3 + k"
proof -
  let ?s0 = "run ([CallPublish ''start'', CallPublish ''stop''] @ connect_history 2 []
           @ [CallDisconnect, Settle 3 True, Settle 2 True]) (new_publisher ''ipc:///tmp/a.sock'')
    :: string proc"
  have s0: "?s0 = \<lparr>publisher = None, isConnected = False, eventQueue = [''stop''],
      socketPath = ''ipc:///tmp/a.sock'',
      tasks = [ConnectDir Background, ConnectDir Background, ConnectDrain Explicit None, Fulfilled],
      sockets = 1, sends = [''start''], delivered = [''start''], console = []\<rparr>"
    by (simp add: connect_history_def run_Cons run_Nil call_defs settle_defs new_publisher_def)
  have "run (replicate k (Settle 2 True)) ?s0 =
      ?s0\<lparr>eventQueue := rotate k (eventQueue ?s0),
           tasks := tasks ?s0 @ replicate k (ConnectDir Background)\<rparr>"
    unfolding s0 by (rule spin_unconnected [where who = Explicit]) simp_all
  then have "run (([CallPublish ''start'', CallPublish ''stop''] @ connect_history 2 []
           @ [CallDisconnect, Settle 3 True, Settle 2 True]) @ replicate k (Settle 2 True))
         (new_publisher ''ipc:///tmp/a.sock'') =
      ?s0\<lparr>eventQueue := rotate k (eventQueue ?s0),
           tasks := tasks ?s0 @ replicate k (ConnectDir Background)\<rparr>"
    by (simp only: run_append)
  then show ?thesis
    unfolding Let_def s0 by (simp add: inflight_def)
qed

theorem C10_disconnect_during_drain_witness:
  "tasks (run ([CallPublish ''start'', CallPublish ''stop''] @ connect_history 2 []
       @ [CallDisconnect, Settle 3 True, Settle 2 True] @ [Settle 2 True, Settle 2 True])
     (new_publisher ''ipc:///tmp/a.sock'')) ! 2 = ConnectDrain Explicit None
   \<and> eventQueue (run ([CallPublish ''start'', CallPublish ''stop''] @ connect_history 2 []
       @ [CallDisconnect, Settle 3 True, Settle 2 True] @ [Settle 2 True, Settle 2 True])
     (new_publisher ''ipc:///tmp/a.sock'')) = [''stop'']
   \<and> inflight (run ([CallPublish ''start'', CallPublish ''stop''] @ connect_history 2 []
       @ [CallDisconnect, Settle 3 True, Settle 2 True] @ [Settle 2 True, Settle 2 True])
     (new_publisher ''ipc:///tmp/a.sock'')) = 5"
  using C10_disconnect_during_drain [of "Suc (Suc 0)"]
  by (simp add: Let_def)

section \<open>The registry\<close>

lemma registry_ok_registry0: "registry_ok registry0"
  by (simp add: registry_ok_def registry0_def)

lemma map_of_None_notin: "map_of xs k = None \<Longrightarrow> k \<notin> fst ` set xs"
  by (simp add: map_of_eq_None_iff)

lemma registry_ok_get:
  assumes "registry_ok r"
  shows "registry_ok (snd (getZmqPublisher f opts r))"
proof (cases "map_of (publisherInstances r) (f opts)")
  case None
  then have "f opts \<notin> fst ` set (publisherInstances r)"
    by (rule map_of_None_notin)
  moreover have "length (instances r) \<notin> snd ` set (publisherInstances r)"
    using assms by (auto simp: registry_ok_def list_all_iff)
  ultimately show ?thesis
    using assms None
    by (auto simp: registry_ok_def getZmqPublisher_def Let_def list_all_iff)
next
  case (Some p)
  then show ?thesis using assms by (simp add: getZmqPublisher_def)
qed

lemma registry_ok_step:
  assumes "registry_ok r"
  shows "registry_ok (registry_step f a r)"
proof (cases a)
  case (Get opts)
  then show ?thesis using registry_ok_get [OF assms] by (simp add: registry_step_def)
next
  case (Shutdown closes)
  then show ?thesis by (simp add: registry_step_def shutdownZmqPublisher_def registry_ok_def)
next
  case (On p act)
  then show ?thesis using assms by (simp add: registry_step_def registry_ok_def)
qed

lemma registry_ok_fold:
  "registry_ok r \<Longrightarrow> registry_ok (fold (registry_step f) acts r)"
  by (induction acts arbitrary: r) (simp_all add: registry_ok_step)

lemma registry_ok_run: "registry_ok (registry_run f acts)"
  by (simp add: registry_run_def registry_ok_fold registry_ok_registry0)

lemma get_registers:
  "map_of (publisherInstances (snd (getZmqPublisher f opts r))) (f opts)
     = Some (fst (getZmqPublisher f opts r))"
  by (cases "map_of (publisherInstances r) (f opts)")
    (simp_all add: getZmqPublisher_def Let_def map_add_def)

lemma step_keeps_lookup:
  assumes "keeps_registry a" and "map_of (publisherInstances r) k = Some p"
  shows "map_of (publisherInstances (registry_step f a r)) k = Some p"
proof (cases a)
  case (Get opts)
  then show ?thesis
    using assms(2)
    by (cases "map_of (publisherInstances r) (f opts)")
      (auto simp: registry_step_def getZmqPublisher_def Let_def map_add_Some_iff)
next
  case (Shutdown closes)
  then show ?thesis using assms(1) by simp
next
  case (On q act)
  then show ?thesis using assms(2) by (simp add: registry_step_def)
qed

lemma fold_keeps_lookup:
  "list_all keeps_registry acts \<Longrightarrow> map_of (publisherInstances r) k = Some p \<Longrightarrow>
     map_of (publisherInstances (fold (registry_step f) acts r)) k = Some p"
  by (induction acts arbitrary: r) (simp_all add: step_keeps_lookup)

lemma registered_inj:
  assumes "registry_ok r" and "map_of (publisherInstances r) k1 = Some p"
    and "map_of (publisherInstances r) k2 = Some p"
  shows "k1 = k2"
proof -
  have "inj_on snd (set (publisherInstances r))"
    using assms(1) by (simp add: registry_ok_def distinct_map)
  moreover have "(k1, p) \<in> set (publisherInstances r)" "(k2, p) \<in> set (publisherInstances r)"
    using assms(2,3) by (auto dest: map_of_SomeD)
  ultimately have "(k1, p) = (k2, p)"
    by (intro inj_onD [of snd "set (publisherInstances r)"]) simp_all
  then show ?thesis by simp
qed

lemma registered_bound:
  assumes "registry_ok r" and "map_of (publisherInstances r) k = Some p"
  shows "p < length (instances r)"
proof -
  have "(k, p) \<in> set (publisherInstances r)"
    using assms(2) by (rule map_of_SomeD)
  then show ?thesis using assms(1) by (auto simp: registry_ok_def list_all_iff)
qed

lemma get_same_iff:
  assumes "registry_ok r" and "map_of (publisherInstances r) k = Some p"
  shows "(fst (getZmqPublisher f opts r) = p) = (f opts = k)"
proof (cases "map_of (publisherInstances r) (f opts)")
  case None
  then have "f opts \<noteq> k" using assms(2) by auto
  moreover have "p < length (instances r)" using assms by (rule registered_bound)
  ultimately show ?thesis using None by (simp add: getZmqPublisher_def Let_def)
next
  case (Some q)
  then have "(q = p) = (f opts = k)"
    using assms registered_inj [OF assms(1) Some, of k] by auto
  then show ?thesis using Some by (simp add: getZmqPublisher_def)
qed

text \<open>
  C6. In the registry reached by any history, let getZmqPublisher be called with options
  \<open>opts1\<close> and later, with any calls but shutdown in between, with options \<open>opts2\<close>. The
  second call returns the object of the first exactly when the two options resolve to
  the same endpoint. The map never holds an endpoint twice, nor an object twice.
\<close>

theorem C6_one_publisher_per_endpoint:
  assumes "list_all keeps_registry between"
  shows "(fst (getZmqPublisher f opts2
            (fold (registry_step f) between (snd (getZmqPublisher f opts1 (registry_run f acts)))))
          = fst (getZmqPublisher f opts1 (registry_run f acts)))
         = (f opts2 = f opts1)
       \<and> distinct (map fst (publisherInstances (registry_run f acts)))
       \<and> distinct (map snd (publisherInstances (registry_run f acts)))"
proof -
  let ?r = "registry_run f acts"
  let ?r1 = "snd (getZmqPublisher f opts1 ?r)"
  let ?r2 = "fold (registry_step f) between ?r1"
  have ok: "registry_ok ?r" by (rule registry_ok_run)
  then have "registry_ok ?r1" by (rule registry_ok_get)
  then have ok2: "registry_ok ?r2" by (rule registry_ok_fold)
  have "map_of (publisherInstances ?r2) (f opts1) = Some (fst (getZmqPublisher f opts1 ?r))"
    using assms get_registers by (rule fold_keeps_lookup)
  with ok2 have "(fst (getZmqPublisher f opts2 ?r2) = fst (getZmqPublisher f opts1 ?r))
      = (f opts2 = f opts1)"
    by (rule get_same_iff)
  then show ?thesis using ok by (simp add: registry_ok_def)
qed

theorem C6_one_publisher_per_endpoint_witness:
  "list_all keeps_registry [Get ''b'', On 0 (CallPublish ''start'')]
   \<and> fst (getZmqPublisher id ''a''
        (fold (registry_step id) [Get ''b'', On 0 (CallPublish ''start'')]
          (snd (getZmqPublisher id ''a'' (registry_run id [] :: string registry)))))
     = fst (getZmqPublisher id ''a'' (registry_run id [] :: string registry))
   \<and> fst (getZmqPublisher id ''b''
        (fold (registry_step id) [Get ''b'', On 0 (CallPublish ''start'')]
          (snd (getZmqPublisher id ''a'' (registry_run id [] :: string registry)))))
     \<noteq> fst (getZmqPublisher id ''a'' (registry_run id [] :: string registry))"
proof -
  have h: "list_all keeps_registry [Get ''b'', On 0 (CallPublish ''start'') :: (string, string) registry_action]"
    by simp
  show ?thesis
    using C6_one_publisher_per_endpoint [OF h, of id "''a''" "''a''" "[]"]
      C6_one_publisher_per_endpoint [OF h, of id "''b''" "''a''" "[]"]
    by simp
qed

lemma fold_update_length:
  "length (fold (\<lambda>p objs. objs[p := g p (objs ! p)]) ps xs) = length xs"
  by (induction ps arbitrary: xs) simp_all

lemma fold_update_other:
  "p \<notin> set ps \<Longrightarrow> fold (\<lambda>p objs. objs[p := g p (objs ! p)]) ps xs ! p = xs ! p"
  by (induction ps arbitrary: xs) simp_all

lemma fold_update_nth:
  "distinct ps \<Longrightarrow> p \<in> set ps \<Longrightarrow> p < length xs \<Longrightarrow>
     fold (\<lambda>p objs. objs[p := g p (objs ! p)]) ps xs ! p = g p (xs ! p)"
proof (induction ps arbitrary: xs)
  case Nil
  then show ?case by simp
next
  case (Cons q ps)
  show ?case
  proof (cases "p = q")
    case True
    then have "p \<notin> set ps" using Cons.prems(1) by simp
    then show ?thesis using True Cons.prems(3) by (simp add: fold_update_other)
  next
    case False
    then have "p \<in> set ps" using Cons.prems(2) by simp
    then show ?thesis using False Cons by simp
  qed
qed

lemma length_shutdown:
  "length (instances (shutdownZmqPublisher closes r)) = length (instances r)"
  using fold_update_length [where g = "\<lambda>p. disconnect_run (closes p)"]
  by (simp add: shutdownZmqPublisher_def)

lemma step_keeps_above:
  assumes "n \<le> length (instances r)" and "list_all (\<lambda>p. n \<le> p) (map snd (publisherInstances r))"
  shows "n \<le> length (instances (registry_step f a r))
       \<and> list_all (\<lambda>p. n \<le> p) (map snd (publisherInstances (registry_step f a r)))"
proof (cases a)
  case (Get opts)
  then show ?thesis
    using assms
    by (cases "map_of (publisherInstances r) (f opts)")
      (simp_all add: registry_step_def getZmqPublisher_def Let_def)
next
  case (Shutdown closes)
  then show ?thesis
    using assms(1) by (simp add: registry_step_def length_shutdown) (simp add: shutdownZmqPublisher_def)
next
  case (On p act)
  then show ?thesis using assms by (simp add: registry_step_def)
qed

lemma fold_keeps_above:
  "n \<le> length (instances r) \<Longrightarrow> list_all (\<lambda>p. n \<le> p) (map snd (publisherInstances r)) \<Longrightarrow>
     n \<le> length (instances (fold (registry_step f) acts r))
     \<and> list_all (\<lambda>p. n \<le> p) (map snd (publisherInstances (fold (registry_step f) acts r)))"
proof (induction acts arbitrary: r)
  case Nil
  then show ?case by simp
next
  case (Cons a acts)
  have "n \<le> length (instances (registry_step f a r))
       \<and> list_all (\<lambda>p. n \<le> p) (map snd (publisherInstances (registry_step f a r)))"
    using Cons.prems by (rule step_keeps_above)
  then show ?case using Cons.IH by simp
qed

lemma get_above:
  assumes "n \<le> length (instances r)" and "list_all (\<lambda>p. n \<le> p) (map snd (publisherInstances r))"
  shows "n \<le> fst (getZmqPublisher f opts r)"
proof (cases "map_of (publisherInstances r) (f opts)")
  case None
  then show ?thesis using assms(1) by (simp add: getZmqPublisher_def Let_def)
next
  case (Some p)
  then have "p \<in> snd ` set (publisherInstances r)"
    by (force dest: map_of_SomeD)
  then show ?thesis using assms(2) Some by (auto simp: getZmqPublisher_def list_all_iff)
qed

lemma get_after_shutdown:
  "length (instances r) \<le>
     fst (getZmqPublisher f opts (fold (registry_step f) after (shutdownZmqPublisher closes r)))"
proof -
  let ?r' = "shutdownZmqPublisher closes r"
  have "length (instances r) \<le> length (instances ?r')"
    by (simp add: length_shutdown)
  moreover have "list_all (\<lambda>p. length (instances r) \<le> p) (map snd (publisherInstances ?r'))"
    by (simp add: shutdownZmqPublisher_def)
  ultimately have "length (instances r) \<le> length (instances (fold (registry_step f) after ?r'))
     \<and> list_all (\<lambda>p. length (instances r) \<le> p)
         (map snd (publisherInstances (fold (registry_step f) after ?r')))"
    by (rule fold_keeps_above)
  then show ?thesis by (simp add: get_above)
qed

text \<open>
  C7. In the registry reached by any history, shutdownZmqPublisher leaves the map empty
  and has run disconnect() on every registered object: its handle is cleared, and it is
  marked disconnected if it held a handle. A call of getZmqPublisher right after that, for
  any options, constructs a new object and registers it as the only entry; and whatever
  happens after the shutdown, no later call of getZmqPublisher returns an object that
  was registered before it.
\<close>

theorem C7_shutdown_clears_registry:
  "publisherInstances (shutdownZmqPublisher closes (registry_run f acts)) = []
   \<and> (\<forall>p \<in> snd ` set (publisherInstances (registry_run f acts)).
         instances (shutdownZmqPublisher closes (registry_run f acts)) ! p
           = disconnect_run (closes p) (instances (registry_run f acts) ! p)
       \<and> publisher (instances (shutdownZmqPublisher closes (registry_run f acts)) ! p) = None
       \<and> (publisher (instances (registry_run f acts) ! p) \<noteq> None \<longrightarrow>
            \<not> isConnected (instances (shutdownZmqPublisher closes (registry_run f acts)) ! p))
       \<and> fst (getZmqPublisher f opts
            (fold (registry_step f) after (shutdownZmqPublisher closes (registry_run f acts)))) \<noteq> p)
   \<and> fst (getZmqPublisher f opts (shutdownZmqPublisher closes (registry_run f acts)))
       = length (instances (registry_run f acts))
   \<and> instances (snd (getZmqPublisher f opts (shutdownZmqPublisher closes (registry_run f acts))))
       ! length (instances (registry_run f acts)) = new_publisher (f opts)
   \<and> publisherInstances (snd (getZmqPublisher f opts (shutdownZmqPublisher closes (registry_run f acts))))
       = [(f opts, length (instances (registry_run f acts)))]"
proof -
  let ?r = "registry_run f acts"
  let ?r' = "shutdownZmqPublisher closes ?r"
  have ok: "registry_ok ?r" by (rule registry_ok_run)
  have len: "length (instances ?r') = length (instances ?r)"
    using fold_update_length [where g = "\<lambda>p. disconnect_run (closes p)"]
    by (simp add: shutdownZmqPublisher_def)
  have empty: "publisherInstances ?r' = []"
    by (simp add: shutdownZmqPublisher_def)
  have fresh: "getZmqPublisher f opts ?r' =
      (length (instances ?r),
       ?r'\<lparr>instances := instances ?r' @ [new_publisher (f opts)],
           publisherInstances := [(f opts, length (instances ?r))]\<rparr>)"
    by (simp add: getZmqPublisher_def Let_def empty len)
  have each: "instances ?r' ! p = disconnect_run (closes p) (instances ?r ! p)
       \<and> p < length (instances ?r)"
    if "p \<in> snd ` set (publisherInstances ?r)" for p
  proof -
    have "p \<in> set (map snd (publisherInstances ?r))" using that by simp
    moreover from this have "p < length (instances ?r)"
      using ok by (auto simp: registry_ok_def list_all_iff)
    moreover have "distinct (map snd (publisherInstances ?r))"
      using ok by (simp add: registry_ok_def)
    ultimately show ?thesis
      using fold_update_nth [where g = "\<lambda>p. disconnect_run (closes p)"
          and ps = "map snd (publisherInstances ?r)" and p = p and xs = "instances ?r"]
      by (simp add: shutdownZmqPublisher_def)
  qed
  have later: "fst (getZmqPublisher f opts (fold (registry_step f) after ?r')) \<noteq> p"
    if "p \<in> snd ` set (publisherInstances ?r)" for p
    using each [OF that] get_after_shutdown [of ?r f opts after closes] by simp
  show ?thesis
    using each later
    by (auto simp: fresh empty len nth_append publisher_disconnect_run isConnected_disconnect_run)
qed

theorem C7_shutdown_clears_registry_witness:
  "publisherInstances (registry_run id [Get ''a'', On 0 CallConnect, On 0 (Settle 0 True)]
      :: string registry) = [(''a'', 0)]
   \<and> publisher (instances (registry_run id [Get ''a'', On 0 CallConnect, On 0 (Settle 0 True)]
      :: string registry) ! 0) = Some 0
   \<and> publisherInstances (shutdownZmqPublisher (\<lambda>p. False)
        (registry_run id [Get ''a'', On 0 CallConnect, On 0 (Settle 0 True)] :: string registry)) = []
   \<and> publisher (instances (shutdownZmqPublisher (\<lambda>p. False)
        (registry_run id [Get ''a'', On 0 CallConnect, On 0 (Settle 0 True)] :: string registry)) ! 0)
      = None
   \<and> fst (getZmqPublisher id ''a'' (shutdownZmqPublisher (\<lambda>p. False)
        (registry_run id [Get ''a'', On 0 CallConnect, On 0 (Settle 0 True)] :: string registry)))
      = 1
   \<and> fst (getZmqPublisher id ''a'' (fold (registry_step id) [Get ''b'', Get ''a'']
        (shutdownZmqPublisher (\<lambda>p. False)
          (registry_run id [Get ''a'', On 0 CallConnect, On 0 (Settle 0 True)] :: string registry))))
      \<noteq> 0"
proof -
  let ?r = "registry_run id [Get ''a'', On 0 CallConnect, On 0 (Settle 0 True)] :: string registry"
  have eval: "publisherInstances ?r = [(''a'', 0)]" "publisher (instances ?r ! 0) = Some 0"
    "length (instances ?r) = 1"
    by (simp_all add: registry_run_def registry_step_def getZmqPublisher_def Let_def registry0_def
        new_publisher_def call_defs settle_defs)
  show ?thesis
    using eval C7_shutdown_clears_registry [where closes = "\<lambda>p. False" and f = id
        and acts = "[Get ''a'', On 0 CallConnect, On 0 (Settle 0 True)]
          :: (string, string) registry_action list"
        and opts = "''a''" and after = "[Get ''b'', Get ''a'']"]
    by (simp add: publisher_disconnect_run)
qed

section \<open>The listener\<close>



end
